theory Spec2Isabelle
  imports Main
begin

section \<open>The crawler of website_analyzer/crawler.py\<close>

subsection \<open>The outside world: utils and the browser\<close>

text \<open>
  The two exception classes the crawl loop distinguishes: Playwright's timeout error and
  every other subclass of Python's \<open>Exception\<close>. What is no \<open>Exception\<close> (a keyboard
  interrupt, the exit of the interpreter) is outside the model, as are the printed lines.
\<close>

datatype py_exception = PlaywrightTimeoutError | Exception

text \<open>
  The browser calls the crawler makes, in the order it makes them. A context is logged when
  \<open>browser.new_context\<close> has returned it, a navigation when \<open>page.goto\<close> is called, a close
  when \<open>context.close\<close> is called.
\<close>

datatype event = NewContext string | NewPage string | Goto string | CloseContext string

primrec event_url :: "event \<Rightarrow> string" where
  "event_url (NewContext u) = u"
| "event_url (NewPage u) = u"
| "event_url (Goto u) = u"
| "event_url (CloseContext u) = u"

text \<open>
  The module \<open>utils\<close> and the Playwright browser are not part of the crawler: they are
  parameters of the model. \<open>normalize_url\<close>, \<open>is_same_domain\<close> and \<open>is_downloadable_file\<close>
  are the three functions of \<open>utils\<close> the crawler calls, taken as pure and total. Every
  browser call either returns or raises; a page and its context are named by the URL they
  were created for, and what a call does is a function of that URL.
  \<^item> \<open>launch\<close>: \<open>sync_playwright()\<close> and \<open>chromium.launch\<close>;
  \<^item> \<open>new_context\<close>, \<open>new_page\<close>: creating the context and the page for a URL;
  \<^item> \<open>goto u t\<close>: navigating to \<open>u\<close> with timeout \<open>t\<close>; the response is \<open>None\<close> or a status;
  \<^item> \<open>wait_for_timeout u ms\<close>: the settle delay;
  \<^item> \<open>evaluate u\<close>: the \<open>href\<close> of every anchor of the loaded page;
  \<^item> \<open>context_close u k\<close>: the call of \<open>context.close()\<close> on the context for \<open>u\<close> that has
    been closed \<open>k\<close> times before;
  \<^item> \<open>browser_close\<close>: \<open>browser.close()\<close> and leaving the \<open>with\<close> block.
\<close>

record world =
  normalize_url :: "string \<Rightarrow> string"
  is_same_domain :: "string \<Rightarrow> string \<Rightarrow> bool"
  is_downloadable_file :: "string \<Rightarrow> bool"
  launch :: "py_exception option"
  new_context :: "string \<Rightarrow> py_exception option"
  new_page :: "string \<Rightarrow> py_exception option"
  goto :: "string \<Rightarrow> int \<Rightarrow> py_exception + int option"
  wait_for_timeout :: "string \<Rightarrow> int \<Rightarrow> py_exception option"
  evaluate :: "string \<Rightarrow> py_exception + string list"
  context_close :: "string \<Rightarrow> nat \<Rightarrow> py_exception option"
  browser_close :: "py_exception option"

text \<open>The optional collaborators: \<open>capture(page, url, index)\<close> and \<open>audit(url, index)\<close>.\<close>

type_synonym capturer = "string \<Rightarrow> int \<Rightarrow> py_exception + string list"
type_synonym auditor = "string \<Rightarrow> int \<Rightarrow> py_exception + string"

subsection \<open>The crawler's data\<close>

record WebCrawler =
  max_pages :: int
  timeout :: int
  wait_time :: int
  visited_urls :: "string set"
  urls_to_visit :: "string list"

text \<open>\<open>WebCrawler.__init__\<close>.\<close>

definition init :: "int \<Rightarrow> int \<Rightarrow> int \<Rightarrow> WebCrawler" where
  "init mp t wt =
     \<lparr>max_pages = mp, timeout = t, wait_time = wt, visited_urls = {}, urls_to_visit = []\<rparr>"

record page_info =
  url :: string
  number :: int
  screenshots :: "string list"
  lighthouse :: "string option"

text \<open>
  The dictionary \<open>crawl_stats\<close>, without its three wall-clock entries (\<open>start_time\<close>,
  \<open>end_time\<close>, \<open>duration\<close>).
\<close>

record crawl_stats =
  start_url :: string
  pages_crawled :: int
  pages :: "page_info list"

text \<open>
  The state of one run of \<open>crawl\<close>: the crawler's own fields, the local \<open>crawl_stats\<close> and
  \<open>page_count\<close>, the number of \<open>close\<close> calls the current context has received, and the log
  of browser calls.
\<close>

record crawl_state = WebCrawler +
  crawl_stats :: crawl_stats
  page_count :: int
  context_closes :: nat
  trace :: "event list"

definition log :: "event \<Rightarrow> crawl_state \<Rightarrow> crawl_state" where
  "log e st = st\<lparr>trace := trace st @ [e]\<rparr>"

subsection \<open>extract_links and url_in_list\<close>

definition startswith :: "string \<Rightarrow> string \<Rightarrow> bool" where
  "startswith s p = (take (length p) s = p)"

text \<open>The loop of \<open>extract_links\<close> over the raw links of the page.\<close>

primrec valid_links :: "world \<Rightarrow> string \<Rightarrow> string list \<Rightarrow> string list" where
  "valid_links w base_url [] = []"
| "valid_links w base_url (link # links) =
     (if \<not> (startswith link ''http://'' \<or> startswith link ''https://'')
      then valid_links w base_url links
      else if \<not> is_same_domain w base_url link
      then valid_links w base_url links
      else if is_downloadable_file w link
      then valid_links w base_url links
      else normalize_url w link # valid_links w base_url links)"

definition extract_links :: "world \<Rightarrow> string \<Rightarrow> string \<Rightarrow> py_exception + string list" where
  "extract_links w page base_url =
     (case evaluate w page of
        Inl e \<Rightarrow> Inl e
      | Inr links \<Rightarrow> Inr (valid_links w base_url links))"

primrec url_in_list :: "world \<Rightarrow> string \<Rightarrow> string list \<Rightarrow> bool" where
  "url_in_list w u [] = False"
| "url_in_list w u (list_url # url_list) =
     (if normalize_url w list_url = normalize_url w u then True
      else url_in_list w u url_list)"

subsection \<open>The body of the crawl loop\<close>

text \<open>
  The loop over \<open>new_links\<close> that appends the unseen ones to the queue; \<open>visited_urls\<close>
  does not change while it runs.
\<close>

primrec enqueue_links :: "world \<Rightarrow> string set \<Rightarrow> string list \<Rightarrow> string list \<Rightarrow> string list"
  where
  "enqueue_links w visited [] queue = queue"
| "enqueue_links w visited (link # links) queue =
     (let normalized_link = normalize_url w link in
      enqueue_links w visited links
        (if normalized_link \<notin> visited \<and> \<not> url_in_list w normalized_link queue
         then queue @ [normalized_link]
         else queue))"

text \<open>How the \<open>try\<close> block is left: at its end, by its \<open>continue\<close>, or by an exception.\<close>

datatype flow = Fallthrough | Continue | Raised py_exception

definition close_context :: "world \<Rightarrow> string \<Rightarrow> crawl_state \<Rightarrow> crawl_state \<times> py_exception option"
  where
  "close_context w u st =
     ((log (CloseContext u) st)\<lparr>context_closes := Suc (context_closes st)\<rparr>,
      context_close w u (context_closes st))"

definition call_capturer :: "capturer option \<Rightarrow> string \<Rightarrow> int \<Rightarrow> py_exception + string list"
  where
  "call_capturer screenshot_capturer u n =
     (case screenshot_capturer of None \<Rightarrow> Inr [] | Some capture \<Rightarrow> capture u n)"

definition call_auditor :: "auditor option \<Rightarrow> string \<Rightarrow> int \<Rightarrow> py_exception + string option"
  where
  "call_auditor lighthouse_auditor u n =
     (case lighthouse_auditor of
        None \<Rightarrow> Inr None
      | Some audit \<Rightarrow> (case audit u n of Inl e \<Rightarrow> Inl e | Inr r \<Rightarrow> Inr (Some r)))"

definition add_page :: "page_info \<Rightarrow> crawl_state \<Rightarrow> crawl_state" where
  "add_page page_info st =
     st\<lparr>crawl_stats := (crawl_stats st)\<lparr>pages := pages (crawl_stats st) @ [page_info]\<rparr>,
        page_count := page_count st + 1\<rparr>"

text \<open>The \<open>try\<close> block, from \<open>page.goto\<close> to \<open>page_count += 1\<close>.\<close>

definition try_block ::
  "world \<Rightarrow> capturer option \<Rightarrow> auditor option \<Rightarrow> string \<Rightarrow> string \<Rightarrow> crawl_state
     \<Rightarrow> crawl_state \<times> flow" where
  "try_block w screenshot_capturer lighthouse_auditor start normalized_url st0 =
     (let st = log (Goto normalized_url) st0 in
      case goto w normalized_url (timeout st) of
        Inl e \<Rightarrow> (st, Raised e)
      | Inr response \<Rightarrow>
          if (case response of None \<Rightarrow> True | Some status \<Rightarrow> status \<ge> 400)
          then (case close_context w normalized_url st of
                  (st', Some e) \<Rightarrow> (st', Raised e)
                | (st', None) \<Rightarrow> (st', Continue))
          else
            (case wait_for_timeout w normalized_url (wait_time st * 1000) of
               Some e \<Rightarrow> (st, Raised e)
             | None \<Rightarrow>
                 (case call_capturer screenshot_capturer normalized_url (page_count st) of
                    Inl e \<Rightarrow> (st, Raised e)
                  | Inr shots \<Rightarrow>
                      (case call_auditor lighthouse_auditor normalized_url (page_count st) of
                         Inl e \<Rightarrow> (st, Raised e)
                       | Inr audit_result \<Rightarrow>
                           (case extract_links w normalized_url start of
                              Inl e \<Rightarrow> (st, Raised e)
                            | Inr new_links \<Rightarrow>
                                (add_page
                                   \<lparr>url = normalized_url, number = page_count st,
                                    screenshots = shots, lighthouse = audit_result\<rparr>
                                   (st\<lparr>urls_to_visit :=
                                         enqueue_links w (visited_urls st) new_links
                                           (urls_to_visit st)\<rparr>),
                                 Fallthrough))))))"

text \<open>
  One pass through the loop body for the URL just popped from the queue. The result is the
  new state and the exception that leaves \<open>crawl\<close>, if any: both \<open>except\<close> clauses only
  print, and the \<open>finally\<close> clause closes the context however the \<open>try\<close> block was left.
\<close>

definition iteration ::
  "world \<Rightarrow> capturer option \<Rightarrow> auditor option \<Rightarrow> string \<Rightarrow> string \<Rightarrow> crawl_state
     \<Rightarrow> crawl_state \<times> py_exception option" where
  "iteration w screenshot_capturer lighthouse_auditor start current_url st0 =
     (let normalized_url = normalize_url w current_url in
      if normalized_url \<in> visited_urls st0 then (st0, None)
      else
        let st = st0\<lparr>visited_urls := insert normalized_url (visited_urls st0)\<rparr> in
        if is_downloadable_file w normalized_url then (st, None)
        else
          (case new_context w normalized_url of
             Some e \<Rightarrow> (st, Some e)
           | None \<Rightarrow>
               (let st = (log (NewContext normalized_url) st)\<lparr>context_closes := 0\<rparr> in
                case new_page w normalized_url of
                  Some e \<Rightarrow> (st, Some e)
                | None \<Rightarrow>
                    (let st = log (NewPage normalized_url) st in
                     case try_block w screenshot_capturer lighthouse_auditor start
                            normalized_url st of
                       (st', _) \<Rightarrow> close_context w normalized_url st'))))"

subsection \<open>What one pass through the loop body does\<close>

lemma url_in_list_iff:
  "url_in_list w u xs \<longleftrightarrow> (\<exists>l\<in>set xs. normalize_url w l = normalize_url w u)"
  by (induction xs) auto

lemma enqueue_links_appends:
  "\<exists>new. enqueue_links w V ls q = q @ new \<and> set new \<subseteq> normalize_url w ` set ls - V"
proof (induction ls arbitrary: q)
  case Nil
  show ?case by simp
next
  case (Cons l ls)
  show ?case
  proof (cases "normalize_url w l \<notin> V \<and> \<not> url_in_list w (normalize_url w l) q")
    case True
    from Cons [of "q @ [normalize_url w l]"] obtain new where
      "enqueue_links w V ls (q @ [normalize_url w l]) = (q @ [normalize_url w l]) @ new"
      "set new \<subseteq> normalize_url w ` set ls - V" by blast
    with True have "enqueue_links w V (l # ls) q = q @ (normalize_url w l # new) \<and>
       set (normalize_url w l # new) \<subseteq> normalize_url w ` set (l # ls) - V"
      by (auto simp: Let_def)
    then show ?thesis by blast
  next
    case False
    from Cons [of q] obtain new where
      "enqueue_links w V ls q = q @ new" "set new \<subseteq> normalize_url w ` set ls - V" by blast
    with False have "enqueue_links w V (l # ls) q = q @ new \<and>
       set new \<subseteq> normalize_url w ` set (l # ls) - V"
      by (auto simp: Let_def)
    then show ?thesis by blast
  qed
qed

lemma enqueue_links_distinct:
  "distinct q \<Longrightarrow> distinct (enqueue_links w V ls q)"
proof (induction ls arbitrary: q)
  case Nil
  then show ?case by simp
next
  case (Cons l ls)
  have "distinct (if normalize_url w l \<notin> V \<and> \<not> url_in_list w (normalize_url w l) q
                  then q @ [normalize_url w l] else q)"
    using Cons.prems by (auto simp: url_in_list_iff)
  from Cons.IH [OF this] show ?case by (simp add: Let_def)
qed

lemma try_block_Fallthrough:
  assumes "try_block w cap aud s n st = (st', Fallthrough)"
  shows "\<exists>status links shots audit_result.
      goto w n (timeout st) = Inr (Some status) \<and> status < 400 \<and>
      wait_for_timeout w n (wait_time st * 1000) = None \<and>
      call_capturer cap n (page_count st) = Inr shots \<and>
      call_auditor aud n (page_count st) = Inr audit_result \<and>
      evaluate w n = Inr links \<and>
      st' = st\<lparr>urls_to_visit :=
                   enqueue_links w (visited_urls st) (valid_links w s links) (urls_to_visit st),
                 crawl_stats := (crawl_stats st)\<lparr>pages := pages (crawl_stats st) @
                   [\<lparr>url = n, number = page_count st,
                     screenshots = shots, lighthouse = audit_result\<rparr>]\<rparr>,
                 page_count := page_count st + 1,
                 trace := trace st @ [Goto n]\<rparr>"
  using assms(1) [symmetric]
  by (simp add: try_block_def close_context_def log_def add_page_def
        extract_links_def Let_def
        split: if_splits option.splits sum.splits prod.splits)

lemma try_block_not_Fallthrough:
  assumes "try_block w cap aud s n st = (st', f)" "f \<noteq> Fallthrough"
  shows "(st' = st\<lparr>trace := trace st @ [Goto n]\<rparr>) \<or>
     (st' = st\<lparr>context_closes := Suc (context_closes st),
                 trace := trace st @ [Goto n, CloseContext n]\<rparr> \<and>
       (\<forall>e. f = Raised e \<longrightarrow> context_close w n (context_closes st) = Some e))"
  using assms(1) [symmetric] assms(2)
  by (simp add: try_block_def close_context_def log_def add_page_def
        extract_links_def Let_def
        split: if_splits option.splits sum.splits prod.splits)


lemma iteration_cases [consumes 1, case_names Seen Skipped Recorded]:
  assumes "iteration w cap aud s cur st = (st', r)"
  obtains
    (Seen) "normalize_url w cur \<in> visited_urls st" "st' = st" "r = None"
  | (Skipped) es cc where
      "normalize_url w cur \<notin> visited_urls st"
      "st' = st\<lparr>visited_urls := insert (normalize_url w cur) (visited_urls st),
                 context_closes := cc, trace := trace st @ es\<rparr>"
      "\<forall>e\<in>set es. event_url e = normalize_url w cur"
      "is_downloadable_file w (normalize_url w cur) \<longrightarrow> es = []"
      "r \<in> {None, new_context w (normalize_url w cur), new_page w (normalize_url w cur),
            context_close w (normalize_url w cur) 0, context_close w (normalize_url w cur) 1}"
      "r = None \<longrightarrow> is_downloadable_file w (normalize_url w cur)
                    \<or> Goto (normalize_url w cur) \<in> set es"
      "new_context w (normalize_url w cur) = None
         \<and> \<not> is_downloadable_file w (normalize_url w cur)
         \<longrightarrow> (\<exists>es'. es = NewContext (normalize_url w cur) # es')"
  | (Recorded) status links shots audit_result where
      "normalize_url w cur \<notin> visited_urls st"
      "\<not> is_downloadable_file w (normalize_url w cur)"
      "new_context w (normalize_url w cur) = None"
      "new_page w (normalize_url w cur) = None"
      "goto w (normalize_url w cur) (timeout st) = Inr (Some status)" "status < 400"
      "wait_for_timeout w (normalize_url w cur) (wait_time st * 1000) = None"
      "call_capturer cap (normalize_url w cur) (page_count st) = Inr shots"
      "call_auditor aud (normalize_url w cur) (page_count st) = Inr audit_result"
      "evaluate w (normalize_url w cur) = Inr links"
      "st' = st\<lparr>visited_urls := insert (normalize_url w cur) (visited_urls st),
                 urls_to_visit :=
                   enqueue_links w (insert (normalize_url w cur) (visited_urls st))
                     (valid_links w s links) (urls_to_visit st),
                 crawl_stats := (crawl_stats st)\<lparr>pages := pages (crawl_stats st) @
                   [\<lparr>url = normalize_url w cur, number = page_count st,
                     screenshots = shots, lighthouse = audit_result\<rparr>]\<rparr>,
                 page_count := page_count st + 1,
                 context_closes := 1,
                 trace := trace st @ [NewContext (normalize_url w cur),
                   NewPage (normalize_url w cur), Goto (normalize_url w cur),
                   CloseContext (normalize_url w cur)]\<rparr>"
      "r = context_close w (normalize_url w cur) 0"
proof -
  let ?n = "normalize_url w cur"
  let ?st1 = "st\<lparr>visited_urls := insert ?n (visited_urls st)\<rparr>"
  let ?st2 = "(log (NewContext ?n) ?st1)\<lparr>context_closes := 0\<rparr>"
  let ?st3 = "log (NewPage ?n) ?st2"
  note it = assms [symmetric, unfolded iteration_def Let_def]
  consider (a) "?n \<in> visited_urls st"
    | (b) "?n \<notin> visited_urls st" "is_downloadable_file w ?n"
    | (c) e where "?n \<notin> visited_urls st" "\<not> is_downloadable_file w ?n"
        "new_context w ?n = Some e"
    | (d) e where "?n \<notin> visited_urls st" "\<not> is_downloadable_file w ?n"
        "new_context w ?n = None" "new_page w ?n = Some e"
    | (e) "?n \<notin> visited_urls st" "\<not> is_downloadable_file w ?n"
        "new_context w ?n = None" "new_page w ?n = None"
    by (cases "new_context w ?n"; cases "new_page w ?n") auto
  then show thesis
  proof cases
    case a
    with it show ?thesis by (intro Seen) simp_all
  next
    case b
    with it show ?thesis by (intro Skipped [of "[]" "context_closes st"]) simp_all
  next
    case c
    with it show ?thesis by (intro Skipped [of "[]" "context_closes st"]) simp_all
  next
    case d
    with it show ?thesis
      by (intro Skipped [of "[NewContext ?n]" 0]) (simp_all add: log_def)
  next
    case e
    obtain st2 f where tb: "try_block w cap aud s ?n ?st3 = (st2, f)"
      by (cases "try_block w cap aud s ?n ?st3")
    with e it have cl: "(st', r) = close_context w ?n st2" by simp
    show ?thesis
    proof (cases "f = Fallthrough")
      case True
      with tb try_block_Fallthrough [of w cap aud s ?n ?st3 st2]
      obtain status links shots audit_result where
        ok: "goto w ?n (timeout ?st3) = Inr (Some status)" "status < 400"
          "wait_for_timeout w ?n (wait_time ?st3 * 1000) = None"
          "call_capturer cap ?n (page_count ?st3) = Inr shots"
          "call_auditor aud ?n (page_count ?st3) = Inr audit_result"
          "evaluate w ?n = Inr links"
        and st2: "st2 = ?st3\<lparr>urls_to_visit :=
                   enqueue_links w (visited_urls ?st3) (valid_links w s links)
                     (urls_to_visit ?st3),
                 crawl_stats := (crawl_stats ?st3)\<lparr>pages := pages (crawl_stats ?st3) @
                   [\<lparr>url = ?n, number = page_count ?st3,
                     screenshots = shots, lighthouse = audit_result\<rparr>]\<rparr>,
                 page_count := page_count ?st3 + 1,
                 trace := trace ?st3 @ [Goto ?n]\<rparr>"
        by blast
      from cl st2 e ok show ?thesis
        by (intro Recorded [of status shots audit_result links])
           (simp_all add: close_context_def log_def)
    next
      case False
      from try_block_not_Fallthrough [OF tb False]
      show ?thesis
      proof
        assume "st2 = ?st3\<lparr>trace := trace ?st3 @ [Goto ?n]\<rparr>"
        with cl e show ?thesis
          by (intro Skipped [of "[NewContext ?n, NewPage ?n, Goto ?n, CloseContext ?n]" 1])
             (simp_all add: close_context_def log_def)
      next
        assume "st2 = ?st3\<lparr>context_closes := Suc (context_closes ?st3),
                 trace := trace ?st3 @ [Goto ?n, CloseContext ?n]\<rparr> \<and>
          (\<forall>e. f = Raised e \<longrightarrow> context_close w ?n (context_closes ?st3) = Some e)"
        with cl e show ?thesis
          by (intro Skipped [of "[NewContext ?n, NewPage ?n, Goto ?n, CloseContext ?n,
                 CloseContext ?n]" 2])
             (simp_all add: close_context_def log_def)
      qed
    qed
  qed
qed


subsection \<open>The crawl loop and crawl\<close>

text \<open>
  \<open>while self.urls_to_visit and page_count < self.max_pages\<close>: the loop stops on the empty
  queue, on the exhausted budget, or on an exception that no handler of the body catches.
\<close>

function crawl_loop ::
  "world \<Rightarrow> capturer option \<Rightarrow> auditor option \<Rightarrow> string \<Rightarrow> crawl_state
     \<Rightarrow> crawl_state \<times> py_exception option" where
  "crawl_loop w screenshot_capturer lighthouse_auditor start st =
     (case urls_to_visit st of
        [] \<Rightarrow> (st, None)
      | current_url # rest \<Rightarrow>
          if page_count st < max_pages st
          then (case iteration w screenshot_capturer lighthouse_auditor start current_url
                       (st\<lparr>urls_to_visit := rest\<rparr>) of
                  (st', Some e) \<Rightarrow> (st', Some e)
                | (st', None) \<Rightarrow> crawl_loop w screenshot_capturer lighthouse_auditor start st')
          else (st, None))"
  by pat_completeness auto
termination
  apply (relation "measures [\<lambda>(w, c, a, s, st). nat (max_pages st - page_count st),
                           \<lambda>(w, c, a, s, st). length (urls_to_visit st)]")
   apply simp
  apply (drule sym [of _ "iteration _ _ _ _ _ _"])
  apply (erule iteration_cases)
    apply auto
  done

declare crawl_loop.simps [simp del]

text \<open>The crawler's fields and the locals of \<open>crawl\<close> when the loop is entered.\<close>

definition start_state :: "WebCrawler \<Rightarrow> string \<Rightarrow> crawl_state" where
  "start_state self start =
     \<lparr>max_pages = max_pages self, timeout = timeout self, wait_time = wait_time self,
      visited_urls = visited_urls self, urls_to_visit = urls_to_visit self,
      crawl_stats = \<lparr>start_url = start, pages_crawled = 0, pages = []\<rparr>,
      page_count = 0, context_closes = 0, trace = []\<rparr>"

text \<open>
  \<open>crawl\<close> returns the exception it raises or the statistics, together with the crawler as
  the call leaves it and the log of browser calls.
\<close>

definition crawl ::
  "world \<Rightarrow> WebCrawler \<Rightarrow> string \<Rightarrow> capturer option \<Rightarrow> auditor option
     \<Rightarrow> (py_exception + crawl_stats) \<times> WebCrawler \<times> event list" where
  "crawl w self start_url0 screenshot_capturer lighthouse_auditor =
     (let start = normalize_url w start_url0;
          self1 = self\<lparr>urls_to_visit := urls_to_visit self @ [start]\<rparr>
      in case launch w of
           Some e \<Rightarrow> (Inl e, self1, [])
         | None \<Rightarrow>
             (case crawl_loop w screenshot_capturer lighthouse_auditor start
                     (start_state self1 start) of
                (st, r) \<Rightarrow>
                  (let self2 = self\<lparr>visited_urls := visited_urls st,
                                     urls_to_visit := urls_to_visit st\<rparr>
                   in case r of
                        Some e \<Rightarrow> (Inl e, self2, trace st)
                      | None \<Rightarrow>
                          (case browser_close w of
                             Some e \<Rightarrow> (Inl e, self2, trace st)
                           | None \<Rightarrow>
                               (Inr ((crawl_stats st)\<lparr>pages_crawled := page_count st\<rparr>),
                                self2, trace st)))))"

subsection \<open>Invariants of the loop\<close>

text \<open>
  What the queue and the visited set satisfy whenever the loop tests its condition: the queue
  holds no URL twice and none that is visited, its entries are normal forms, and the recorded
  pages have pairwise different URLs, all visited.
\<close>

definition queue_invariant :: "world \<Rightarrow> crawl_state \<Rightarrow> bool" where
  "queue_invariant w st \<longleftrightarrow>
     distinct (urls_to_visit st) \<and>
     set (urls_to_visit st) \<inter> visited_urls st = {} \<and>
     list_all (\<lambda>u. normalize_url w u = u) (urls_to_visit st) \<and>
     distinct (map url (pages (crawl_stats st))) \<and>
     list_all (\<lambda>p. url p \<in> visited_urls st) (pages (crawl_stats st))"

text \<open>
  A page is recorded only after \<open>page.goto\<close> returned a response with a status below 400.
\<close>

definition fetch_succeeded :: "world \<Rightarrow> int \<Rightarrow> string \<Rightarrow> bool" where
  "fetch_succeeded w t u =
     (case goto w u t of
        Inl e \<Rightarrow> False
      | Inr None \<Rightarrow> False
      | Inr (Some status) \<Rightarrow> status < 400)"

text \<open>What holds of the URL of every recorded page, and of every browser call.\<close>

definition recorded_ok :: "world \<Rightarrow> int \<Rightarrow> string set \<Rightarrow> string \<Rightarrow> bool" where
  "recorded_ok w t visited0 u \<longleftrightarrow>
     u \<notin> visited0 \<and> \<not> is_downloadable_file w u \<and> fetch_succeeded w t u \<and>
     \<not> isl (evaluate w u)"

definition called_ok :: "world \<Rightarrow> string set \<Rightarrow> event \<Rightarrow> bool" where
  "called_ok w visited0 e \<longleftrightarrow>
     event_url e \<notin> visited0 \<and> \<not> is_downloadable_file w (event_url e)"

definition run_invariant :: "world \<Rightarrow> WebCrawler \<Rightarrow> crawl_state \<Rightarrow> bool" where
  "run_invariant w self st \<longleftrightarrow>
     timeout st = timeout self \<and> visited_urls self \<subseteq> visited_urls st \<and>
     list_all (\<lambda>p. recorded_ok w (timeout self) (visited_urls self) (url p))
       (pages (crawl_stats st)) \<and>
     list_all (\<lambda>p. url p \<in> visited_urls st) (pages (crawl_stats st)) \<and>
     list_all (called_ok w (visited_urls self)) (trace st)"

subsection \<open>Example sites\<close>

text \<open>
  A site on which every browser call succeeds and every page loads with status 200; the page
  at \<open>u\<close> has the anchors \<open>links u\<close>. \<open>utils\<close> is the simplest one: URLs are already normal,
  every link is on the domain, nothing is a download.
\<close>

definition site :: "(string \<Rightarrow> string list) \<Rightarrow> world" where
  "site links =
     \<lparr>normalize_url = (\<lambda>u. u), is_same_domain = (\<lambda>b u. True),
      is_downloadable_file = (\<lambda>u. False), launch = None,
      new_context = (\<lambda>u. None), new_page = (\<lambda>u. None),
      goto = (\<lambda>u t. Inr (Some 200)), wait_for_timeout = (\<lambda>u ms. None),
      evaluate = (\<lambda>u. Inr (links u)), context_close = (\<lambda>u k. None),
      browser_close = None\<rparr>"

definition diamond :: "string \<Rightarrow> string list" where
  "diamond u =
     (if u = ''http://s/a'' then [''http://s/b'', ''http://s/c'']
      else if u = ''http://s/b'' then [''http://s/d'']
      else if u = ''http://s/c'' then [''http://s/d'']
      else [])"

definition no_links :: "string \<Rightarrow> string list" where
  "no_links u = []"

text \<open>The diamond site on which loading page \<open>b\<close> times out.\<close>

definition slow_b :: world where
  "slow_b = (site diamond)\<lparr>goto := (\<lambda>u t. if u = ''http://s/b''
                                          then Inl PlaywrightTimeoutError
                                          else Inr (Some 200))\<rparr>"




text \<open>The site of one page that answers with status 404.\<close>

definition not_found :: world where
  "not_found = (site no_links)\<lparr>goto := (\<lambda>u t. Inr (Some 404))\<rparr>"

text \<open>
  A site with a download: page \<open>a\<close> links to \<open>f.pdf/\<close> and to \<open>b\<close>. Only \<open>f.pdf\<close> without the
  slash is classified as a download, and normalisation removes that slash.
\<close>

definition downloads :: world where
  "downloads =
     (site (\<lambda>u. if u = ''http://s/a'' then [''http://s/f.pdf/'', ''http://s/b''] else []))
       \<lparr>normalize_url := (\<lambda>u. if u = ''http://s/f.pdf/'' then ''http://s/f.pdf'' else u),
        is_downloadable_file := (\<lambda>u. u = ''http://s/f.pdf'')\<rparr>"


text \<open>A screenshot capturer that fails on page \<open>c\<close>.\<close>

definition failing_capturer :: capturer where
  "failing_capturer u n = (if u = ''http://s/c'' then Inl Exception else Inr [u @ ''.png''])"

section \<open>Properties of the crawl\<close>

subsection \<open>Reasoning about the loop\<close>

lemma crawl_loop_rule_aux:
  assumes init: "P st"
    and step: "\<And>st cur rest st' r.
      \<lbrakk>P st; urls_to_visit st = cur # rest; page_count st < max_pages st;
       iteration w cap aud s cur (st\<lparr>urls_to_visit := rest\<rparr>) = (st', r)\<rbrakk> \<Longrightarrow> P st'"
  shows "P (fst (crawl_loop w cap aud s st)) \<and>
         (snd (crawl_loop w cap aud s st) = None \<longrightarrow>
            urls_to_visit (fst (crawl_loop w cap aud s st)) = [] \<or>
            \<not> page_count (fst (crawl_loop w cap aud s st))
                < max_pages (fst (crawl_loop w cap aud s st))) \<and>
         (\<forall>e. snd (crawl_loop w cap aud s st) = Some e \<longrightarrow>
            (\<exists>st0 cur rest. P st0 \<and> urls_to_visit st0 = cur # rest \<and>
               iteration w cap aud s cur (st0\<lparr>urls_to_visit := rest\<rparr>)
                 = (fst (crawl_loop w cap aud s st), Some e)))"
  using assms
proof (induction w cap aud s st rule: crawl_loop.induct)
  case (1 w cap aud s st)
  show ?case
  proof (cases "urls_to_visit st")
    case Nil
    with "1.prems"(1) show ?thesis by (simp add: crawl_loop.simps)
  next
    case (Cons cur rest)
    show ?thesis
    proof (cases "page_count st < max_pages st")
      case False
      with Cons "1.prems"(1) show ?thesis by (simp add: crawl_loop.simps)
    next
      case True
      obtain st' r where it: "iteration w cap aud s cur (st\<lparr>urls_to_visit := rest\<rparr>) = (st', r)"
        by (cases "iteration w cap aud s cur (st\<lparr>urls_to_visit := rest\<rparr>)")
      have P': "P st'" by (rule "1.prems"(2) [OF "1.prems"(1) Cons True it])
      show ?thesis
      proof (cases r)
        case None
        with Cons True it have "crawl_loop w cap aud s st = crawl_loop w cap aud s st'"
          by (simp add: crawl_loop.simps [of w cap aud s st])
        with "1.IH" [OF Cons True it [symmetric] None P' "1.prems"(2)] show ?thesis
          by simp
      next
        case (Some e)
        with Cons True it have "crawl_loop w cap aud s st = (st', Some e)"
          by (simp add: crawl_loop.simps [of w cap aud s st])
        with P' it Some "1.prems"(1) Cons show ?thesis by auto
      qed
    qed
  qed
qed


lemma crawl_loop_invariant:
  assumes "crawl_loop w cap aud s st = (st', r)" and "P st"
    and "\<And>st cur rest st' r.
      \<lbrakk>P st; urls_to_visit st = cur # rest; page_count st < max_pages st;
       iteration w cap aud s cur (st\<lparr>urls_to_visit := rest\<rparr>) = (st', r)\<rbrakk> \<Longrightarrow> P st'"
  shows "P st'"
  using crawl_loop_rule_aux [of P st w cap aud s, OF assms(2,3)] assms(1) by simp

lemma crawl_loop_exit:
  assumes "crawl_loop w cap aud s st = (st', None)"
  shows "urls_to_visit st' = [] \<or> \<not> page_count st' < max_pages st'"
  using crawl_loop_rule_aux [of "\<lambda>st. True" st w cap aud s] assms by simp


lemma crawl_cases [consumes 1, case_names NoBrowser Ran]:
  assumes "crawl w self s0 cap aud = (res, self', tr)"
  obtains
    (NoBrowser) e where "launch w = Some e" "res = Inl e" "tr = []"
      "self' = self\<lparr>urls_to_visit := urls_to_visit self @ [normalize_url w s0]\<rparr>"
  | (Ran) st r where "launch w = None"
      "crawl_loop w cap aud (normalize_url w s0)
         (start_state (self\<lparr>urls_to_visit := urls_to_visit self @ [normalize_url w s0]\<rparr>)
            (normalize_url w s0)) = (st, r)"
      "self' = self\<lparr>visited_urls := visited_urls st, urls_to_visit := urls_to_visit st\<rparr>"
      "tr = trace st"
      "res = (case r of Some e \<Rightarrow> Inl e
              | None \<Rightarrow> (case browser_close w of Some e \<Rightarrow> Inl e
                  | None \<Rightarrow> Inr ((crawl_stats st)\<lparr>pages_crawled := page_count st\<rparr>)))"
proof (cases "launch w")
  case (Some e)
  with assms [symmetric] show ?thesis
    by (intro NoBrowser [of e]) (simp_all add: crawl_def Let_def)
next
  case None
  obtain st r where loop: "crawl_loop w cap aud (normalize_url w s0)
         (start_state (self\<lparr>urls_to_visit := urls_to_visit self @ [normalize_url w s0]\<rparr>)
            (normalize_url w s0)) = (st, r)"
    by (cases "crawl_loop w cap aud (normalize_url w s0)
         (start_state (self\<lparr>urls_to_visit := urls_to_visit self @ [normalize_url w s0]\<rparr>)
            (normalize_url w s0))")
  with None assms [symmetric] show ?thesis
    by (intro Ran [of st r])
       (simp_all add: crawl_def Let_def split: option.splits)
qed

lemma crawl_InrE:
  assumes "crawl w self s0 cap aud = (Inr stats, self', tr)"
  obtains st where "launch w = None" "browser_close w = None"
      "crawl_loop w cap aud (normalize_url w s0)
         (start_state (self\<lparr>urls_to_visit := urls_to_visit self @ [normalize_url w s0]\<rparr>)
            (normalize_url w s0)) = (st, None)"
      "self' = self\<lparr>visited_urls := visited_urls st, urls_to_visit := urls_to_visit st\<rparr>"
      "tr = trace st"
      "stats = (crawl_stats st)\<lparr>pages_crawled := page_count st\<rparr>"
  using assms
  by (cases rule: crawl_cases) (auto split: option.splits)

lemma crawl_loop_normal_run:
  assumes "crawl_loop w cap aud s st = (st', None)" and "P st"
    and "\<And>st cur rest st'.
      \<lbrakk>P st; urls_to_visit st = cur # rest; page_count st < max_pages st;
       iteration w cap aud s cur (st\<lparr>urls_to_visit := rest\<rparr>) = (st', None)\<rbrakk> \<Longrightarrow> P st'"
  shows "P st'"
  using assms
proof (induction w cap aud s st rule: crawl_loop.induct)
  case (1 w cap aud s st)
  show ?case
  proof (cases "urls_to_visit st")
    case Nil
    with "1.prems"(1,2) show ?thesis by (simp add: crawl_loop.simps)
  next
    case (Cons cur rest)
    show ?thesis
    proof (cases "page_count st < max_pages st")
      case False
      with Cons "1.prems"(1,2) show ?thesis by (simp add: crawl_loop.simps)
    next
      case True
      obtain st1 r where it: "iteration w cap aud s cur (st\<lparr>urls_to_visit := rest\<rparr>) = (st1, r)"
        by (cases "iteration w cap aud s cur (st\<lparr>urls_to_visit := rest\<rparr>)")
      show ?thesis
      proof (cases r)
        case None
        with Cons True it "1.prems"(1) have loop: "crawl_loop w cap aud s st1 = (st', None)"
          by (simp add: crawl_loop.simps [of w cap aud s st])
        from it None have it': "iteration w cap aud s cur (st\<lparr>urls_to_visit := rest\<rparr>)
            = (st1, None)" by simp
        have "P st1" by (rule "1.prems"(3) [OF "1.prems"(2) Cons True it'])
        from "1.IH" [OF Cons True it [symmetric] None loop this "1.prems"(3)]
        show ?thesis .
      next
        case (Some e)
        with Cons True it "1.prems"(1) show ?thesis
          by (simp add: crawl_loop.simps [of w cap aud s st])
      qed
    qed
  qed
qed

lemma crawl_loop_drains:
  assumes loop: "crawl_loop w cap aud s st = (st', None)"
    and budget: "page_count st' < max_pages st'"
  shows "urls_to_visit st' = [] \<and>
         list_all (\<lambda>x. normalize_url w x \<in> visited_urls st' \<and>
                       (normalize_url w x \<in> visited_urls st \<or>
                        is_downloadable_file w (normalize_url w x) \<or>
                        Goto (normalize_url w x) \<in> set (trace st')))
           (urls_to_visit st)"
proof -
  let ?P = "\<lambda>st1. (\<forall>x\<in>set (urls_to_visit st).
                       x \<in> set (urls_to_visit st1) \<or> normalize_url w x \<in> visited_urls st1) \<and>
                   (\<forall>v\<in>visited_urls st1. v \<in> visited_urls st \<or> is_downloadable_file w v \<or>
                       Goto v \<in> set (trace st1))"
  have "?P st" by simp
  with loop have "?P st'"
  proof (rule crawl_loop_normal_run)
    fix st1 cur rest st2
    assume P: "?P st1" and q: "urls_to_visit st1 = cur # rest"
      and it: "iteration w cap aud s cur (st1\<lparr>urls_to_visit := rest\<rparr>) = (st2, None)"
    from it show "?P st2"
    proof (cases rule: iteration_cases)
      case Seen
      with P q show ?thesis by auto
    next
      case (Skipped es cc)
      with P q show ?thesis by auto
    next
      case (Recorded status links shots audit_result)
      obtain new where "enqueue_links w (insert (normalize_url w cur) (visited_urls st1))
          (valid_links w s links) rest = rest @ new"
        using enqueue_links_appends by blast
      with Recorded(11) P q show ?thesis by auto
    qed
  qed
  moreover from loop have "urls_to_visit st' = [] \<or> \<not> page_count st' < max_pages st'"
    by (rule crawl_loop_exit)
  ultimately show ?thesis using budget by (auto simp: list_all_iff)
qed



lemma crawl_loop_trace:
  assumes "crawl_loop w cap aud s st = (st', r)"
  shows "\<exists>es. trace st' = trace st @ es"
proof -
  have "\<exists>es. trace st = trace st @ es" by simp
  with assms show ?thesis
  proof (rule crawl_loop_invariant)
    fix st1 cur rest st2 r
    assume P: "\<exists>es. trace st1 = trace st @ es"
      and it: "iteration w cap aud s cur (st1\<lparr>urls_to_visit := rest\<rparr>) = (st2, r)"
    from it P show "\<exists>es. trace st2 = trace st @ es"
      by (cases rule: iteration_cases) auto
  qed
qed

subsection \<open>Runs on the example sites\<close>

lemmas crawl_eval = crawl_def init_def start_state_def crawl_loop.simps iteration_def
  try_block_def close_context_def log_def call_capturer_def call_auditor_def
  extract_links_def add_page_def startswith_def Let_def

lemma crawl_diamond:
  "crawl (site diamond) (init 10 30000 2) ''http://s/a'' None None =
     (Inr \<lparr>start_url = ''http://s/a'', pages_crawled = 4,
           pages = [\<lparr>url = ''http://s/a'', number = 0, screenshots = [], lighthouse = None\<rparr>,
                    \<lparr>url = ''http://s/b'', number = 1, screenshots = [], lighthouse = None\<rparr>,
                    \<lparr>url = ''http://s/c'', number = 2, screenshots = [], lighthouse = None\<rparr>,
                    \<lparr>url = ''http://s/d'', number = 3, screenshots = [], lighthouse = None\<rparr>]\<rparr>,
      \<lparr>max_pages = 10, timeout = 30000, wait_time = 2,
       visited_urls = {''http://s/d'', ''http://s/c'', ''http://s/b'', ''http://s/a''},
       urls_to_visit = []\<rparr>,
      [NewContext ''http://s/a'', NewPage ''http://s/a'', Goto ''http://s/a'',
       CloseContext ''http://s/a'', NewContext ''http://s/b'', NewPage ''http://s/b'',
       Goto ''http://s/b'', CloseContext ''http://s/b'', NewContext ''http://s/c'',
       NewPage ''http://s/c'', Goto ''http://s/c'', CloseContext ''http://s/c'',
       NewContext ''http://s/d'', NewPage ''http://s/d'', Goto ''http://s/d'',
       CloseContext ''http://s/d''])"
  by (simp add: crawl_eval site_def diamond_def)

lemma crawl_single_page:
  "crawl (site no_links) (init 1 30000 2) ''http://s/a'' None None =
     (Inr \<lparr>start_url = ''http://s/a'', pages_crawled = 1,
           pages = [\<lparr>url = ''http://s/a'', number = 0, screenshots = [], lighthouse = None\<rparr>]\<rparr>,
      \<lparr>max_pages = 1, timeout = 30000, wait_time = 2,
       visited_urls = {''http://s/a''}, urls_to_visit = []\<rparr>,
      [NewContext ''http://s/a'', NewPage ''http://s/a'', Goto ''http://s/a'',
       CloseContext ''http://s/a''])"
  by (simp add: crawl_eval site_def no_links_def)

subsection \<open>The page budget\<close>

lemma budget_invariant:
  assumes "max_pages st = m \<and> page_count st \<le> max m 0"
    and "urls_to_visit st = cur # rest" "page_count st < max_pages st"
    and "iteration w cap aud s cur (st\<lparr>urls_to_visit := rest\<rparr>) = (st', r)"
  shows "max_pages st' = m \<and> page_count st' \<le> max m 0"
  using assms(4,1,3) by (cases rule: iteration_cases) auto

text \<open>
  Claim C1, as the code has it. A crawl that returns reports at most \<open>max_pages\<close> pages, for
  every budget that is not negative (and no page at all for a negative one); and when it
  reports fewer pages than the budget, the loop stopped on the empty queue: \<open>urls_to_visit\<close>
  is empty when \<open>crawl\<close> returns.
\<close>

theorem crawl_budget:
  assumes "crawl w self s0 cap aud = (Inr stats, self', tr)"
  shows "pages_crawled stats \<le> max (max_pages self) 0 \<and>
         (pages_crawled stats < max_pages self \<longrightarrow> urls_to_visit self' = [])"
proof -
  let ?P = "\<lambda>st. max_pages st = max_pages self \<and> page_count st \<le> max (max_pages self) 0"
  from assms obtain st where
    loop: "crawl_loop w cap aud (normalize_url w s0)
         (start_state (self\<lparr>urls_to_visit := urls_to_visit self @ [normalize_url w s0]\<rparr>)
            (normalize_url w s0)) = (st, None)"
    and res: "self' = self\<lparr>visited_urls := visited_urls st, urls_to_visit := urls_to_visit st\<rparr>"
      "stats = (crawl_stats st)\<lparr>pages_crawled := page_count st\<rparr>"
    by (rule crawl_InrE)
  have "?P (start_state (self\<lparr>urls_to_visit := urls_to_visit self @ [normalize_url w s0]\<rparr>)
            (normalize_url w s0))"
    by (simp add: start_state_def)
  with loop have "?P st"
    by (rule crawl_loop_invariant) (rule budget_invariant)
  moreover from loop have "urls_to_visit st = [] \<or> \<not> page_count st < max_pages st"
    by (rule crawl_loop_exit)
  ultimately show ?thesis using res by auto
qed
theorem crawl_budget_witness:
  "\<not> isl (fst (crawl (site diamond) (init 10 30000 2) ''http://s/a'' None None)) \<and>
   pages_crawled (projr (fst (crawl (site diamond) (init 10 30000 2) ''http://s/a'' None None)))
     \<le> max (max_pages (init 10 30000 2)) 0 \<and>
   pages_crawled (projr (fst (crawl (site diamond) (init 10 30000 2) ''http://s/a'' None None)))
     < max_pages (init 10 30000 2) \<and>
   urls_to_visit (fst (snd (crawl (site diamond) (init 10 30000 2) ''http://s/a'' None None)))
     = []"
  using crawl_budget [OF crawl_diamond]
  unfolding crawl_diamond by (simp add: init_def)

text \<open>
  The claim as the specification words it fails: a site of one page without links, crawled
  with a budget of one page, reports \<open>pages_crawled = max_pages\<close> although the queue is empty
  when the loop stops.
\<close>

theorem budget_reached_with_empty_queue:
  "fst (crawl (site no_links) (init 1 30000 2) ''http://s/a'' None None) =
     Inr \<lparr>start_url = ''http://s/a'', pages_crawled = 1,
          pages = [\<lparr>url = ''http://s/a'', number = 0, screenshots = [],
                    lighthouse = None\<rparr>]\<rparr> \<and>
   max_pages (init 1 30000 2) = 1 \<and>
   urls_to_visit (fst (snd (crawl (site no_links) (init 1 30000 2) ''http://s/a'' None None)))
     = []"
  unfolding crawl_single_page by (simp add: init_def)

subsection \<open>At most one visit per URL\<close>

lemma queue_invariant_step:
  assumes idem: "\<forall>u. normalize_url w (normalize_url w u) = normalize_url w u"
    and inv: "queue_invariant w st"
    and queue: "urls_to_visit st = cur # rest"
    and it: "iteration w cap aud s cur (st\<lparr>urls_to_visit := rest\<rparr>) = (st', r)"
  shows "queue_invariant w st'"
proof -
  let ?V = "visited_urls st"
  from inv queue have cur: "normalize_url w cur = cur" "cur \<notin> set rest" "cur \<notin> ?V"
    and rest: "distinct rest" "set rest \<inter> ?V = {}" "list_all (\<lambda>u. normalize_url w u = u) rest"
    and pgs: "distinct (map url (pages (crawl_stats st)))"
      "list_all (\<lambda>p. url p \<in> ?V) (pages (crawl_stats st))"
    by (auto simp: queue_invariant_def)
  from it show ?thesis
  proof (cases rule: iteration_cases)
    case Seen
    with rest pgs show ?thesis by (simp add: queue_invariant_def)
  next
    case (Skipped es cc)
    with rest pgs cur show ?thesis
      by (auto simp: queue_invariant_def list_all_iff)
  next
    case (Recorded status links shots audit_result)
    obtain new where new: "enqueue_links w (insert cur ?V) (valid_links w s links) rest = rest @ new"
      "set new \<subseteq> normalize_url w ` set (valid_links w s links) - insert cur ?V"
      using enqueue_links_appends by blast
    have d: "distinct (enqueue_links w (insert cur ?V) (valid_links w s links) rest)"
      using rest(1) by (rule enqueue_links_distinct)
    from new idem have fp: "list_all (\<lambda>u. normalize_url w u = u) new"
      by (auto simp: list_all_iff)
    from pgs(2) cur(3) have "cur \<notin> url ` set (pages (crawl_stats st))"
      by (auto simp: list_all_iff)
    with Recorded(11) cur new d fp rest pgs show ?thesis
      by (auto simp: queue_invariant_def list_all_iff)
  qed
qed

text \<open>
  Claim C2. With an idempotent \<open>normalize_url\<close>, every pass through the loop body keeps
  \<open>queue_invariant\<close>: what is appended to the queue is neither visited nor queued already.
  Hence a crawl on a fresh crawler ends with a queue without duplicates that shares no URL
  with \<open>visited_urls\<close>, and the pages it returns have pairwise different URLs.
\<close>

theorem at_most_once_visit:
  assumes "\<forall>u. normalize_url w (normalize_url w u) = normalize_url w u"
  shows "(queue_invariant w st \<and> urls_to_visit st = cur # rest \<and>
          iteration w cap aud s cur (st\<lparr>urls_to_visit := rest\<rparr>) = (st', r)
            \<longrightarrow> queue_invariant w st') \<and>
         (visited_urls self = {} \<and> urls_to_visit self = [] \<and>
          crawl w self s0 cap aud = (res, self', tr)
            \<longrightarrow> distinct (urls_to_visit self') \<and>
                set (urls_to_visit self') \<inter> visited_urls self' = {} \<and>
                (\<forall>stats. res = Inr stats \<longrightarrow> distinct (map url (pages stats))))"
proof (intro conjI impI)
  assume "queue_invariant w st \<and> urls_to_visit st = cur # rest \<and>
          iteration w cap aud s cur (st\<lparr>urls_to_visit := rest\<rparr>) = (st', r)"
  with assms show "queue_invariant w st'"
    using queue_invariant_step by blast
next
  assume a: "visited_urls self = {} \<and> urls_to_visit self = [] \<and>
          crawl w self s0 cap aud = (res, self', tr)"
  let ?st0 = "start_state (self\<lparr>urls_to_visit := urls_to_visit self @ [normalize_url w s0]\<rparr>)
                (normalize_url w s0)"
  from a assms have inv0: "queue_invariant w ?st0"
    by (simp add: queue_invariant_def start_state_def)
  from a have "crawl w self s0 cap aud = (res, self', tr)" by simp
  then have "distinct (urls_to_visit self') \<and>
        set (urls_to_visit self') \<inter> visited_urls self' = {} \<and>
        (\<forall>stats. res = Inr stats \<longrightarrow> distinct (map url (pages stats)))"
  proof (cases rule: crawl_cases)
    case (NoBrowser e)
    with a show ?thesis by simp
  next
    case (Ran st r)
    from Ran(2) inv0 have "queue_invariant w st"
      by (rule crawl_loop_invariant) (rule queue_invariant_step [OF assms])
    with Ran(3,5) show ?thesis
      by (auto simp: queue_invariant_def split: option.splits)
  qed
  then show "distinct (urls_to_visit self')"
    and "set (urls_to_visit self') \<inter> visited_urls self' = {}"
    and "\<forall>stats. res = Inr stats \<longrightarrow> distinct (map url (pages stats))"
    by simp_all
qed

theorem at_most_once_visit_witness:
  "(\<forall>u. normalize_url (site diamond) (normalize_url (site diamond) u)
          = normalize_url (site diamond) u) \<and>
   queue_invariant (site diamond)
     (start_state ((init 10 30000 2)\<lparr>urls_to_visit := [''http://s/a'']\<rparr>) ''http://s/a'') \<and>
   queue_invariant (site diamond)
     (fst (iteration (site diamond) None None ''http://s/a'' ''http://s/a''
        ((start_state ((init 10 30000 2)\<lparr>urls_to_visit := [''http://s/a'']\<rparr>) ''http://s/a'')
           \<lparr>urls_to_visit := []\<rparr>))) \<and>
   visited_urls (init 10 30000 2) = {} \<and> urls_to_visit (init 10 30000 2) = [] \<and>
   distinct (urls_to_visit
     (fst (snd (crawl (site diamond) (init 10 30000 2) ''http://s/a'' None None)))) \<and>
   set (urls_to_visit
     (fst (snd (crawl (site diamond) (init 10 30000 2) ''http://s/a'' None None)))) \<inter>
   visited_urls
     (fst (snd (crawl (site diamond) (init 10 30000 2) ''http://s/a'' None None))) = {} \<and>
   distinct (map url (pages (projr
     (fst (crawl (site diamond) (init 10 30000 2) ''http://s/a'' None None)))))"
proof -
  have idem: "\<forall>u. normalize_url (site diamond) (normalize_url (site diamond) u)
          = normalize_url (site diamond) u"
    by (simp add: site_def)
  have inv: "queue_invariant (site diamond)
     (start_state ((init 10 30000 2)\<lparr>urls_to_visit := [''http://s/a'']\<rparr>) ''http://s/a'')"
    by (simp add: queue_invariant_def start_state_def init_def site_def)
  have fresh: "visited_urls (init 10 30000 2) = {}" "urls_to_visit (init 10 30000 2) = []"
    by (simp_all add: init_def)
  from at_most_once_visit [OF idem,
      of "start_state ((init 10 30000 2)\<lparr>urls_to_visit := [''http://s/a'']\<rparr>) ''http://s/a''"
         "''http://s/a''" "[]" None None "''http://s/a''"
         "fst (iteration (site diamond) None None ''http://s/a'' ''http://s/a''
        ((start_state ((init 10 30000 2)\<lparr>urls_to_visit := [''http://s/a'']\<rparr>) ''http://s/a'')
           \<lparr>urls_to_visit := []\<rparr>))"
         "snd (iteration (site diamond) None None ''http://s/a'' ''http://s/a''
        ((start_state ((init 10 30000 2)\<lparr>urls_to_visit := [''http://s/a'']\<rparr>) ''http://s/a'')
           \<lparr>urls_to_visit := []\<rparr>))"
         "init 10 30000 2" "''http://s/a''"
         "fst (crawl (site diamond) (init 10 30000 2) ''http://s/a'' None None)"
         "fst (snd (crawl (site diamond) (init 10 30000 2) ''http://s/a'' None None))"
         "snd (snd (crawl (site diamond) (init 10 30000 2) ''http://s/a'' None None))"]
    idem inv fresh
  show ?thesis
    unfolding crawl_diamond by (simp add: start_state_def)
qed

subsection \<open>Pages that fail\<close>

lemma run_invariant_step:
  assumes inv: "run_invariant w self st"
    and it: "iteration w cap aud s cur (st\<lparr>urls_to_visit := rest\<rparr>) = (st', r)"
  shows "run_invariant w self st'"
  using it
proof (cases rule: iteration_cases)
  case Seen
  with inv show ?thesis by (simp add: run_invariant_def)
next
  case (Skipped es cc)
  from inv Skipped(1-4) show ?thesis
    by (auto simp: run_invariant_def called_ok_def list_all_iff)
next
  case (Recorded status links shots audit_result)
  with inv show ?thesis
    by (auto simp: run_invariant_def called_ok_def recorded_ok_def fetch_succeeded_def
          list_all_iff)
qed

lemma crawl_run_invariant:
  assumes "crawl w self s0 cap aud = (res, self', tr)"
  shows "visited_urls self \<subseteq> visited_urls self' \<and>
         list_all (called_ok w (visited_urls self)) tr \<and>
         (\<forall>stats. res = Inr stats \<longrightarrow>
            list_all (\<lambda>p. recorded_ok w (timeout self) (visited_urls self) (url p))
              (pages stats) \<and>
            list_all (\<lambda>p. url p \<in> visited_urls self') (pages stats))"
  using assms
proof (cases rule: crawl_cases)
  case (NoBrowser e)
  then show ?thesis by simp
next
  case (Ran st r)
  have "run_invariant w self
     (start_state (self\<lparr>urls_to_visit := urls_to_visit self @ [normalize_url w s0]\<rparr>)
        (normalize_url w s0))"
    by (simp add: run_invariant_def start_state_def)
  with Ran(2) have "run_invariant w self st"
    by (rule crawl_loop_invariant) (rule run_invariant_step)
  with Ran(3,4,5) show ?thesis
    by (auto simp: run_invariant_def split: option.splits)
qed


lemma skipped_state:
  assumes "urls_to_visit st = cur # rest" "page_count st < max_pages st"
    and "iteration w cap aud s cur (st\<lparr>urls_to_visit := rest\<rparr>) = (st', None)"
  shows "crawl_loop w cap aud s st = crawl_loop w cap aud s st'"
  using assms by (simp add: crawl_loop.simps [of w cap aud s st])








subsection \<open>Errors in link extraction\<close>







subsection \<open>State that outlives a crawl\<close>

lemma crawl_no_links:
  "crawl (site no_links) (init 10 30000 2) ''http://s/a'' None None =
     (Inr \<lparr>start_url = ''http://s/a'', pages_crawled = 1,
           pages = [\<lparr>url = ''http://s/a'', number = 0, screenshots = [], lighthouse = None\<rparr>]\<rparr>,
      \<lparr>max_pages = 10, timeout = 30000, wait_time = 2,
       visited_urls = {''http://s/a''}, urls_to_visit = []\<rparr>,
      [NewContext ''http://s/a'', NewPage ''http://s/a'', Goto ''http://s/a'',
       CloseContext ''http://s/a''])"
  by (simp add: crawl_eval site_def no_links_def)

lemma crawl_again:
  "crawl (site no_links)
     \<lparr>max_pages = 10, timeout = 30000, wait_time = 2,
      visited_urls = {''http://s/a''}, urls_to_visit = []\<rparr> ''http://s/a'' None None =
     (Inr \<lparr>start_url = ''http://s/a'', pages_crawled = 0, pages = []\<rparr>,
      \<lparr>max_pages = 10, timeout = 30000, wait_time = 2,
       visited_urls = {''http://s/a''}, urls_to_visit = []\<rparr>, [])"
  by (simp add: crawl_eval site_def no_links_def)

lemma crawl_diamond_budget_3:
  "crawl (site diamond) (init 3 30000 2) ''http://s/a'' None None =
     (Inr \<lparr>start_url = ''http://s/a'', pages_crawled = 3,
           pages = [\<lparr>url = ''http://s/a'', number = 0, screenshots = [], lighthouse = None\<rparr>,
                    \<lparr>url = ''http://s/b'', number = 1, screenshots = [], lighthouse = None\<rparr>,
                    \<lparr>url = ''http://s/c'', number = 2, screenshots = [], lighthouse = None\<rparr>]\<rparr>,
      \<lparr>max_pages = 3, timeout = 30000, wait_time = 2,
       visited_urls = {''http://s/c'', ''http://s/b'', ''http://s/a''},
       urls_to_visit = [''http://s/d'']\<rparr>,
      [NewContext ''http://s/a'', NewPage ''http://s/a'', Goto ''http://s/a'',
       CloseContext ''http://s/a'', NewContext ''http://s/b'', NewPage ''http://s/b'',
       Goto ''http://s/b'', CloseContext ''http://s/b'', NewContext ''http://s/c'',
       NewPage ''http://s/c'', Goto ''http://s/c'', CloseContext ''http://s/c''])"
  by (simp add: crawl_eval site_def diamond_def)

lemma crawl_diamond_again:
  "crawl (site diamond)
     \<lparr>max_pages = 3, timeout = 30000, wait_time = 2,
      visited_urls = {''http://s/c'', ''http://s/b'', ''http://s/a''},
      urls_to_visit = [''http://s/d'']\<rparr> ''http://s/a'' None None =
     (Inr \<lparr>start_url = ''http://s/a'', pages_crawled = 1,
           pages = [\<lparr>url = ''http://s/d'', number = 0, screenshots = [], lighthouse = None\<rparr>]\<rparr>,
      \<lparr>max_pages = 3, timeout = 30000, wait_time = 2,
       visited_urls = {''http://s/d'', ''http://s/c'', ''http://s/b'', ''http://s/a''},
       urls_to_visit = []\<rparr>,
      [NewContext ''http://s/d'', NewPage ''http://s/d'', Goto ''http://s/d'',
       CloseContext ''http://s/d''])"
  by (simp add: crawl_eval site_def diamond_def)

lemma crawl_diamond_again_no_browser:
  "crawl ((site diamond)\<lparr>launch := Some Exception\<rparr>)
     \<lparr>max_pages = 3, timeout = 30000, wait_time = 2,
      visited_urls = {''http://s/c'', ''http://s/b'', ''http://s/a''},
      urls_to_visit = [''http://s/d'']\<rparr> ''http://s/a'' None None =
     (Inl Exception,
      \<lparr>max_pages = 3, timeout = 30000, wait_time = 2,
       visited_urls = {''http://s/c'', ''http://s/b'', ''http://s/a''},
       urls_to_visit = [''http://s/d'', ''http://s/a'']\<rparr>, [])"
  by (simp add: crawl_def site_def)

lemma crawl_not_run:
  assumes "crawl w self s0 cap aud = (res, self', tr)"
    and "launch w \<noteq> None \<or> max_pages self \<le> 0"
  shows "visited_urls self' = visited_urls self \<and>
         urls_to_visit self' = urls_to_visit self @ [normalize_url w s0]"
  using assms(1) [symmetric] assms(2)
  by (cases "urls_to_visit self @ [normalize_url w s0]")
     (auto simp: crawl_def start_state_def crawl_loop.simps Let_def split: option.splits)

lemma crawl_first_call:
  assumes c: "crawl w self s0 cap aud = (res, self', tr)"
    and "launch w = None" "0 < max_pages self" "urls_to_visit self = x # xs"
    and fresh: "normalize_url w x \<notin> visited_urls self"
      "\<not> is_downloadable_file w (normalize_url w x)"
      "new_context w (normalize_url w x) = None"
  shows "\<exists>tr'. tr = NewContext (normalize_url w x) # tr'"
  using c
proof (cases rule: crawl_cases)
  case (NoBrowser e)
  with assms(2) show ?thesis by simp
next
  case (Ran st r)
  let ?st0 = "start_state (self\<lparr>urls_to_visit := urls_to_visit self @ [normalize_url w s0]\<rparr>)
                (normalize_url w s0)"
  have q: "urls_to_visit ?st0 = x # (xs @ [normalize_url w s0])"
    "page_count ?st0 < max_pages ?st0" "trace ?st0 = []" "visited_urls ?st0 = visited_urls self"
    using assms(3,4) by (simp_all add: start_state_def)
  obtain st1 r1 where it: "iteration w cap aud (normalize_url w s0) x
      (?st0\<lparr>urls_to_visit := xs @ [normalize_url w s0]\<rparr>) = (st1, r1)"
    by (cases "iteration w cap aud (normalize_url w s0) x
      (?st0\<lparr>urls_to_visit := xs @ [normalize_url w s0]\<rparr>)")
  from it fresh q(3,4) obtain es where es: "trace st1 = NewContext (normalize_url w x) # es"
    by (cases rule: iteration_cases) auto
  show ?thesis
  proof (cases r1)
    case None
    with q(1,2) it have "crawl_loop w cap aud (normalize_url w s0) ?st0
        = crawl_loop w cap aud (normalize_url w s0) st1"
      by (intro skipped_state) simp_all
    with Ran(2) have "crawl_loop w cap aud (normalize_url w s0) st1 = (st, r)" by simp
    from crawl_loop_trace [OF this] es Ran(4) show ?thesis by auto
  next
    case (Some e)
    with q(1,2) it have "crawl_loop w cap aud (normalize_url w s0) ?st0 = (st1, Some e)"
      by (simp add: crawl_loop.simps [of w cap aud "normalize_url w s0" ?st0])
    with Ran(2,4) es show ?thesis by simp
  qed
qed

lemma crawl_drains:
  assumes c: "crawl w self s0 cap aud = (Inr stats, self', tr)"
    and "pages_crawled stats < max_pages self"
  shows "urls_to_visit self' = [] \<and>
         list_all (\<lambda>x. normalize_url w x \<in> visited_urls self')
           (urls_to_visit self @ [normalize_url w s0])"
proof -
  let ?st0 = "start_state (self\<lparr>urls_to_visit := urls_to_visit self @ [normalize_url w s0]\<rparr>)
                (normalize_url w s0)"
  from c obtain st where
    loop: "crawl_loop w cap aud (normalize_url w s0) ?st0 = (st, None)"
    and res: "self' = self\<lparr>visited_urls := visited_urls st, urls_to_visit := urls_to_visit st\<rparr>"
      "stats = (crawl_stats st)\<lparr>pages_crawled := page_count st\<rparr>"
    by (rule crawl_InrE)
  have "max_pages ?st0 = max_pages self \<and> page_count ?st0 \<le> max (max_pages self) 0"
    by (simp add: start_state_def)
  with loop have "max_pages st = max_pages self \<and> page_count st \<le> max (max_pages self) 0"
    by (rule crawl_loop_invariant) (rule budget_invariant)
  with assms(2) res have "page_count st < max_pages st" by simp
  from crawl_loop_drains [OF loop this] res show ?thesis
    by (simp add: start_state_def list_all_iff)
qed


text \<open>
  Claim C5, as the code has it. \<open>crawl\<close> never resets \<open>visited_urls\<close> or \<open>urls_to_visit\<close>: a
  second call on the same crawler starts from the visited set and the queue that the first
  call left, with the normalized start URL appended behind the leftover entries.
  \<^item> \<open>visited_urls\<close> only grows over the two calls.
  \<^item> The second call makes no browser call for, and records no page of, a URL that the first
    left visited; no URL has a page in the results of both calls.
  \<^item> When the browser of the second call does not launch, or the budget is not positive, the
    call leaves \<open>visited_urls\<close> as it found it and the queue as the leftover queue followed by
    the normalized start URL.
  \<^item> With a launched browser and a positive budget, the first browser call of the second
    call is for the head of the leftover queue (not visited, not a download, its context
    created), not for the start URL.
  \<^item> When the second call returns below its budget, the queue is empty, and every leftover
    entry and the start URL are visited.
\<close>

theorem state_persists_across_crawls:
  assumes "crawl w self s1 cap aud = (res1, self1, tr1)"
    and "crawl w' self1 s2 cap' aud' = (res2, self2, tr2)"
  shows "visited_urls self \<subseteq> visited_urls self1 \<and> visited_urls self1 \<subseteq> visited_urls self2 \<and>
         list_all (\<lambda>e. event_url e \<notin> visited_urls self1) tr2 \<and>
         (\<forall>stats2. res2 = Inr stats2
            \<longrightarrow> list_all (\<lambda>p. url p \<notin> visited_urls self1) (pages stats2)) \<and>
         (\<forall>stats1 stats2. res1 = Inr stats1 \<and> res2 = Inr stats2 \<longrightarrow>
            url ` set (pages stats1) \<inter> url ` set (pages stats2) = {}) \<and>
         (launch w' \<noteq> None \<or> max_pages self1 \<le> 0
            \<longrightarrow> visited_urls self2 = visited_urls self1 \<and>
                urls_to_visit self2 = urls_to_visit self1 @ [normalize_url w' s2]) \<and>
         (launch w' = None \<and> 0 < max_pages self1 \<and> urls_to_visit self1 = x # xs \<and>
          normalize_url w' x \<notin> visited_urls self1 \<and>
          \<not> is_downloadable_file w' (normalize_url w' x) \<and>
          new_context w' (normalize_url w' x) = None
            \<longrightarrow> (\<exists>tr'. tr2 = NewContext (normalize_url w' x) # tr')) \<and>
         (\<forall>stats2. res2 = Inr stats2 \<and> pages_crawled stats2 < max_pages self1
            \<longrightarrow> urls_to_visit self2 = [] \<and>
                list_all (\<lambda>y. normalize_url w' y \<in> visited_urls self2)
                  (urls_to_visit self1 @ [normalize_url w' s2]))"
proof -
  note first = crawl_run_invariant [OF assms(1)]
  note second = crawl_run_invariant [OF assms(2)]
  from second have calls: "list_all (\<lambda>e. event_url e \<notin> visited_urls self1) tr2"
    by (auto simp: list_all_iff called_ok_def)
  have recorded: "list_all (\<lambda>p. url p \<notin> visited_urls self1) (pages stats2)"
    if "res2 = Inr stats2" for stats2
    using that second by (auto simp: list_all_iff recorded_ok_def)
  have disjoint: "url ` set (pages stats1) \<inter> url ` set (pages stats2) = {}"
    if "res1 = Inr stats1 \<and> res2 = Inr stats2" for stats1 stats2
    using that first second by (fastforce simp: list_all_iff recorded_ok_def)
  have not_run: "visited_urls self2 = visited_urls self1 \<and>
                urls_to_visit self2 = urls_to_visit self1 @ [normalize_url w' s2]"
    if "launch w' \<noteq> None \<or> max_pages self1 \<le> 0"
    using crawl_not_run [OF assms(2) that] .
  have head: "\<exists>tr'. tr2 = NewContext (normalize_url w' x) # tr'"
    if "launch w' = None \<and> 0 < max_pages self1 \<and> urls_to_visit self1 = x # xs \<and>
          normalize_url w' x \<notin> visited_urls self1 \<and>
          \<not> is_downloadable_file w' (normalize_url w' x) \<and>
          new_context w' (normalize_url w' x) = None"
    using that by (intro crawl_first_call [OF assms(2)]) simp_all
  have drains: "urls_to_visit self2 = [] \<and>
                list_all (\<lambda>y. normalize_url w' y \<in> visited_urls self2)
                  (urls_to_visit self1 @ [normalize_url w' s2])"
    if "res2 = Inr stats2 \<and> pages_crawled stats2 < max_pages self1" for stats2
    using that assms(2) by (intro crawl_drains [of w' self1 s2 cap' aud' stats2 self2 tr2]) simp_all
  from first second calls recorded disjoint not_run head drains show ?thesis
    by blast
qed

theorem state_persists_across_crawls_witness:
  "visited_urls (init 3 30000 2)
     \<subseteq> visited_urls (fst (snd (crawl (site diamond) (init 3 30000 2) ''http://s/a'' None None))) \<and>
   urls_to_visit (fst (snd (crawl (site diamond) (init 3 30000 2) ''http://s/a'' None None)))
     = [''http://s/d''] \<and>
   \<not> isl (fst (crawl (site diamond)
          (fst (snd (crawl (site diamond) (init 3 30000 2) ''http://s/a'' None None)))
          ''http://s/a'' None None)) \<and>
   snd (snd (crawl (site diamond)
          (fst (snd (crawl (site diamond) (init 3 30000 2) ''http://s/a'' None None)))
          ''http://s/a'' None None)) =
     NewContext ''http://s/d'' #
       [NewPage ''http://s/d'', Goto ''http://s/d'', CloseContext ''http://s/d''] \<and>
   map url (pages (projr (fst (crawl (site diamond)
          (fst (snd (crawl (site diamond) (init 3 30000 2) ''http://s/a'' None None)))
          ''http://s/a'' None None)))) = [''http://s/d''] \<and>
   urls_to_visit (fst (snd (crawl (site diamond)
          (fst (snd (crawl (site diamond) (init 3 30000 2) ''http://s/a'' None None)))
          ''http://s/a'' None None))) = [] \<and>
   list_all (\<lambda>y. y \<in> visited_urls (fst (snd (crawl (site diamond)
          (fst (snd (crawl (site diamond) (init 3 30000 2) ''http://s/a'' None None)))
          ''http://s/a'' None None)))) [''http://s/d'', ''http://s/a''] \<and>
   launch ((site diamond)\<lparr>launch := Some Exception\<rparr>) = Some Exception \<and>
   urls_to_visit (fst (snd (crawl ((site diamond)\<lparr>launch := Some Exception\<rparr>)
          (fst (snd (crawl (site diamond) (init 3 30000 2) ''http://s/a'' None None)))
          ''http://s/a'' None None))) = [''http://s/d'', ''http://s/a'']"
proof -
  note run = state_persists_across_crawls [OF crawl_diamond_budget_3 crawl_diamond_again,
      of "''http://s/d''" "[]"]
  note stop = state_persists_across_crawls [OF crawl_diamond_budget_3
      crawl_diamond_again_no_browser, of "''http://s/d''" "[]"]
  from run stop show ?thesis
    unfolding crawl_diamond_budget_3 fst_conv snd_conv crawl_diamond_again
      crawl_diamond_again_no_browser
    by (simp add: init_def site_def)
qed

text \<open>
  The claim as the specification words it fails: the second crawl of the same site on the
  same crawler starts with the start URL in \<open>visited_urls\<close>, skips it and returns no page,
  where the first crawl (on the fresh crawler) returned one.
\<close>

theorem second_crawl_sees_first:
  "fst (crawl (site no_links) (init 10 30000 2) ''http://s/a'' None None) =
     Inr \<lparr>start_url = ''http://s/a'', pages_crawled = 1,
          pages = [\<lparr>url = ''http://s/a'', number = 0, screenshots = [],
                    lighthouse = None\<rparr>]\<rparr> \<and>
   visited_urls (fst (snd (crawl (site no_links) (init 10 30000 2) ''http://s/a'' None None)))
     = {''http://s/a''} \<and>
   fst (crawl (site no_links)
          (fst (snd (crawl (site no_links) (init 10 30000 2) ''http://s/a'' None None)))
          ''http://s/a'' None None) =
     Inr \<lparr>start_url = ''http://s/a'', pages_crawled = 0, pages = []\<rparr>"
  unfolding crawl_no_links fst_conv snd_conv crawl_again by simp

subsection \<open>Context release, visiting order and downloads\<close>

lemma crawl_not_found:
  "crawl not_found (init 10 30000 2) ''http://s/a'' None None =
     (Inr \<lparr>start_url = ''http://s/a'', pages_crawled = 0, pages = []\<rparr>,
      \<lparr>max_pages = 10, timeout = 30000, wait_time = 2,
       visited_urls = {''http://s/a''}, urls_to_visit = []\<rparr>,
      [NewContext ''http://s/a'', NewPage ''http://s/a'', Goto ''http://s/a'',
       CloseContext ''http://s/a'', CloseContext ''http://s/a''])"
  by (simp add: crawl_eval not_found_def site_def no_links_def)

lemma crawl_downloads:
  "crawl downloads (init 10 30000 2) ''http://s/a'' None None =
     (Inr \<lparr>start_url = ''http://s/a'', pages_crawled = 2,
           pages = [\<lparr>url = ''http://s/a'', number = 0, screenshots = [], lighthouse = None\<rparr>,
                    \<lparr>url = ''http://s/b'', number = 1, screenshots = [], lighthouse = None\<rparr>]\<rparr>,
      \<lparr>max_pages = 10, timeout = 30000, wait_time = 2,
       visited_urls = {''http://s/b'', ''http://s/f.pdf'', ''http://s/a''},
       urls_to_visit = []\<rparr>,
      [NewContext ''http://s/a'', NewPage ''http://s/a'', Goto ''http://s/a'',
       CloseContext ''http://s/a'', NewContext ''http://s/b'', NewPage ''http://s/b'',
       Goto ''http://s/b'', CloseContext ''http://s/b''])"
  by (simp add: crawl_eval downloads_def site_def)

text \<open>
  Claim C6 fails on the code. On the site whose only page answers 404, one context is opened
  and \<open>context.close()\<close> is called on it twice: once in the branch of the failed response,
  and once more in the \<open>finally\<close> clause, which the \<open>continue\<close> of that branch runs.
\<close>

theorem failed_fetch_closes_twice:
  "snd (snd (crawl not_found (init 10 30000 2) ''http://s/a'' None None)) =
     [NewContext ''http://s/a'', NewPage ''http://s/a'', Goto ''http://s/a'',
      CloseContext ''http://s/a'', CloseContext ''http://s/a''] \<and>
   count_list (snd (snd (crawl not_found (init 10 30000 2) ''http://s/a'' None None)))
     (NewContext ''http://s/a'') = 1 \<and>
   count_list (snd (snd (crawl not_found (init 10 30000 2) ''http://s/a'' None None)))
     (CloseContext ''http://s/a'') = 2"
  unfolding crawl_not_found by simp

lemma valid_links_filter:
  "valid_links w base (filter (\<lambda>l. \<not> is_downloadable_file w l) links) = valid_links w base links"
  by (induction links) simp_all




text \<open>
  Claim C8, as the code has it. No browser call of a crawl is for a URL classified as a
  download, and no page it returns has such a URL. A URL taken from the queue whose normal
  form is a download is marked visited and skipped: no context, no navigation. And
  \<open>extract_links\<close> drops the links that are classified as downloads in the form the page has
  them: its result is the one for the page without these links, and each link it returns is
  the normal form of a link that is not a download. The queue itself can hold a URL
  classified as a download (the start URL, which is queued unfiltered, or a link whose normal
  form only is a download); it is skipped when it is taken from the queue.
\<close>

theorem downloadable_never_fetched:
  "(crawl w self s0 cap aud = (res, self', tr)
      \<longrightarrow> list_all (\<lambda>e. \<not> is_downloadable_file w (event_url e)) tr \<and>
          (\<forall>stats. res = Inr stats
             \<longrightarrow> list_all (\<lambda>p. \<not> is_downloadable_file w (url p)) (pages stats))) \<and>
   (is_downloadable_file w (normalize_url w cur) \<and> normalize_url w cur \<notin> visited_urls st
      \<longrightarrow> iteration w cap aud s cur st =
            (st\<lparr>visited_urls := insert (normalize_url w cur) (visited_urls st)\<rparr>, None)) \<and>
   valid_links w base links
     = valid_links w base (filter (\<lambda>l. \<not> is_downloadable_file w l) links) \<and>
   set (valid_links w base links)
     \<subseteq> normalize_url w ` {l. l \<in> set links \<and> \<not> is_downloadable_file w l}"
proof (intro conjI impI)
  assume "crawl w self s0 cap aud = (res, self', tr)"
  note inv = crawl_run_invariant [OF this]
  then show "list_all (\<lambda>e. \<not> is_downloadable_file w (event_url e)) tr"
    by (auto simp: list_all_iff called_ok_def)
  from inv show "\<forall>stats. res = Inr stats
             \<longrightarrow> list_all (\<lambda>p. \<not> is_downloadable_file w (url p)) (pages stats)"
    by (auto simp: list_all_iff recorded_ok_def)
next
  assume "is_downloadable_file w (normalize_url w cur) \<and> normalize_url w cur \<notin> visited_urls st"
  then show "iteration w cap aud s cur st =
            (st\<lparr>visited_urls := insert (normalize_url w cur) (visited_urls st)\<rparr>, None)"
    by (simp add: iteration_def Let_def)
next
  show "valid_links w base links
          = valid_links w base (filter (\<lambda>l. \<not> is_downloadable_file w l) links)"
    by (simp add: valid_links_filter)
next
  show "set (valid_links w base links)
          \<subseteq> normalize_url w ` {l. l \<in> set links \<and> \<not> is_downloadable_file w l}"
    by (induction links) auto
qed

theorem downloadable_never_fetched_witness:
  "\<not> isl (fst (crawl downloads (init 10 30000 2) ''http://s/a'' None None)) \<and>
   list_all (\<lambda>e. \<not> is_downloadable_file downloads (event_url e))
     (snd (snd (crawl downloads (init 10 30000 2) ''http://s/a'' None None))) \<and>
   list_all (\<lambda>p. \<not> is_downloadable_file downloads (url p))
     (pages (projr (fst (crawl downloads (init 10 30000 2) ''http://s/a'' None None)))) \<and>
   is_downloadable_file downloads (normalize_url downloads ''http://s/f.pdf'') \<and>
   iteration downloads None None ''http://s/a'' ''http://s/f.pdf''
     (start_state ((init 10 30000 2)\<lparr>visited_urls := {''http://s/a''},
                      urls_to_visit := [''http://s/b'']\<rparr>) ''http://s/a'') =
     ((start_state ((init 10 30000 2)\<lparr>visited_urls := {''http://s/a''},
                      urls_to_visit := [''http://s/b'']\<rparr>) ''http://s/a'')
        \<lparr>visited_urls := {''http://s/f.pdf'', ''http://s/a''}\<rparr>, None)"
  using downloadable_never_fetched [of downloads "init 10 30000 2" "''http://s/a''" None None
      "fst (crawl downloads (init 10 30000 2) ''http://s/a'' None None)"
      "fst (snd (crawl downloads (init 10 30000 2) ''http://s/a'' None None))"
      "snd (snd (crawl downloads (init 10 30000 2) ''http://s/a'' None None))"
      "''http://s/f.pdf''"
      "start_state ((init 10 30000 2)\<lparr>visited_urls := {''http://s/a''},
                      urls_to_visit := [''http://s/b'']\<rparr>) ''http://s/a''"
      "''http://s/a''"]
  unfolding crawl_downloads
  by (simp add: downloads_def site_def start_state_def init_def)

lemma crawl_downloads_budget_1:
  "crawl downloads (init 1 30000 2) ''http://s/a'' None None =
     (Inr \<lparr>start_url = ''http://s/a'', pages_crawled = 1,
           pages = [\<lparr>url = ''http://s/a'', number = 0, screenshots = [], lighthouse = None\<rparr>]\<rparr>,
      \<lparr>max_pages = 1, timeout = 30000, wait_time = 2,
       visited_urls = {''http://s/a''},
       urls_to_visit = [''http://s/f.pdf'', ''http://s/b'']\<rparr>,
      [NewContext ''http://s/a'', NewPage ''http://s/a'', Goto ''http://s/a'',
       CloseContext ''http://s/a''])"
  by (simp add: crawl_eval downloads_def site_def)

lemma crawl_downloads_budget_0:
  "crawl downloads (init 0 30000 2) ''http://s/f.pdf'' None None =
     (Inr \<lparr>start_url = ''http://s/f.pdf'', pages_crawled = 0, pages = []\<rparr>,
      \<lparr>max_pages = 0, timeout = 30000, wait_time = 2,
       visited_urls = {}, urls_to_visit = [''http://s/f.pdf'']\<rparr>, [])"
  by (simp add: crawl_eval downloads_def site_def)

text \<open>
  The claim as the specification words it fails: URLs classified as downloads do reach the
  queue. Page \<open>a\<close> links to \<open>f.pdf/\<close>, which is no download; its normal form \<open>f.pdf\<close> is one and
  is queued. And a start URL that is a download is queued as any other.
\<close>

theorem download_in_queue:
  "is_downloadable_file downloads ''http://s/f.pdf'' \<and>
   urls_to_visit (fst (snd (crawl downloads (init 1 30000 2) ''http://s/a'' None None)))
     = [''http://s/f.pdf'', ''http://s/b''] \<and>
   urls_to_visit (fst (snd (crawl downloads (init 0 30000 2) ''http://s/f.pdf'' None None)))
     = [''http://s/f.pdf'']"
  unfolding crawl_downloads_budget_1 crawl_downloads_budget_0
  by (simp add: downloads_def)

subsection \<open>Errors that leave crawl, and a start URL that is a download\<close>


lemma crawl_with_failures:
  "crawl slow_b (init 10 30000 2) ''http://s/a'' (Some failing_capturer) None =
     (Inr \<lparr>start_url = ''http://s/a'', pages_crawled = 1,
           pages = [\<lparr>url = ''http://s/a'', number = 0, screenshots = [''http://s/a.png''],
                     lighthouse = None\<rparr>]\<rparr>,
      \<lparr>max_pages = 10, timeout = 30000, wait_time = 2,
       visited_urls = {''http://s/c'', ''http://s/b'', ''http://s/a''},
       urls_to_visit = []\<rparr>,
      [NewContext ''http://s/a'', NewPage ''http://s/a'', Goto ''http://s/a'',
       CloseContext ''http://s/a'', NewContext ''http://s/b'', NewPage ''http://s/b'',
       Goto ''http://s/b'', CloseContext ''http://s/b'', NewContext ''http://s/c'',
       NewPage ''http://s/c'', Goto ''http://s/c'', CloseContext ''http://s/c''])"
  by (simp add: crawl_eval slow_b_def site_def diamond_def failing_capturer_def)




lemma crawl_download_seed:
  "crawl downloads (init 10 30000 2) ''http://s/f.pdf/'' None None =
     (Inr \<lparr>start_url = ''http://s/f.pdf'', pages_crawled = 0, pages = []\<rparr>,
      \<lparr>max_pages = 10, timeout = 30000, wait_time = 2,
       visited_urls = {''http://s/f.pdf''}, urls_to_visit = []\<rparr>, [])"
  by (simp add: crawl_eval downloads_def site_def)

text \<open>
  Claim C10. Let the normalized start URL be classified as a download (and be a normal
  form, as the specification requires of \<open>normalize_url\<close>). Then \<open>crawl\<close> on a fresh crawler,
  with a browser that launches and closes, returns no page and \<open>pages_crawled = 0\<close>, and makes
  no browser call for any page: with a positive budget the start URL is taken from the
  queue, marked visited and skipped.
\<close>

theorem downloadable_seed_is_skipped:
  assumes "is_downloadable_file w (normalize_url w s0)"
    and "normalize_url w (normalize_url w s0) = normalize_url w s0"
    and "visited_urls self = {}" "urls_to_visit self = []"
    and "launch w = None" "browser_close w = None"
  shows "crawl w self s0 cap aud =
           (Inr \<lparr>start_url = normalize_url w s0, pages_crawled = 0, pages = []\<rparr>,
            (if 0 < max_pages self
             then self\<lparr>visited_urls := {normalize_url w s0}, urls_to_visit := []\<rparr>
             else self\<lparr>visited_urls := {}, urls_to_visit := [normalize_url w s0]\<rparr>),
            [])"
  using assms
  by (simp add: crawl_def start_state_def crawl_loop.simps iteration_def Let_def)

theorem downloadable_seed_is_skipped_witness:
  "is_downloadable_file downloads (normalize_url downloads ''http://s/f.pdf/'') \<and>
   normalize_url downloads (normalize_url downloads ''http://s/f.pdf/'')
     = normalize_url downloads ''http://s/f.pdf/'' \<and>
   visited_urls (init 10 30000 2) = {} \<and> urls_to_visit (init 10 30000 2) = [] \<and>
   launch downloads = None \<and> browser_close downloads = None \<and>
   crawl downloads (init 10 30000 2) ''http://s/f.pdf/'' None None =
     (Inr \<lparr>start_url = ''http://s/f.pdf'', pages_crawled = 0, pages = []\<rparr>,
      \<lparr>max_pages = 10, timeout = 30000, wait_time = 2,
       visited_urls = {''http://s/f.pdf''}, urls_to_visit = []\<rparr>, [])"
proof -
  have h: "is_downloadable_file downloads (normalize_url downloads ''http://s/f.pdf/'')"
    "normalize_url downloads (normalize_url downloads ''http://s/f.pdf/'')
       = normalize_url downloads ''http://s/f.pdf/''"
    "visited_urls (init 10 30000 2) = {}" "urls_to_visit (init 10 30000 2) = []"
    "launch downloads = None" "browser_close downloads = None"
    by (simp_all add: downloads_def site_def init_def)
  from downloadable_seed_is_skipped [OF h, of None None] h
  show ?thesis
    by (simp add: downloads_def site_def init_def)
qed

end
